theory Spec2Isabelle
  imports Main "HOL-Library.AList"
begin

section \<open>Text primitives of the Python runtime\<close>

text \<open>
  A Python \<open>str\<close> is modelled as a \<open>string\<close>, every \<open>char\<close> standing for the ASCII code
  point of the same number. The character classes below are those of CPython on the ASCII
  range: \<open>str.strip()\<close> removes the ten ASCII characters for which \<open>str.isspace\<close> holds,
  \<open>str.lower()\<close> and \<open>str.upper()\<close> move the twenty-six letters, and \<open>\d\<close> matches the
  ten digits. Bytes from 0x80 on are outside the modelled alphabet; the functions leave
  them alone.
\<close>

definition isspace :: "char \<Rightarrow> bool" where
  "isspace c \<longleftrightarrow> c \<in> set [CHR 0x09, CHR 0x0A, CHR 0x0B, CHR 0x0C, CHR 0x0D,
                         CHR 0x1C, CHR 0x1D, CHR 0x1E, CHR 0x1F, CHR 0x20]"

definition isdigit :: "char \<Rightarrow> bool" where
  "isdigit c \<longleftrightarrow> c \<in> set ''0123456789''"

definition ascii_uppercase :: string where
  "ascii_uppercase = ''ABCDEFGHIJKLMNOPQRSTUVWXYZ''"

definition ascii_lowercase :: string where
  "ascii_lowercase = ''abcdefghijklmnopqrstuvwxyz''"

definition lower_char :: "char \<Rightarrow> char" where
  "lower_char c = (case map_of (zip ascii_uppercase ascii_lowercase) c of
                     Some d \<Rightarrow> d | None \<Rightarrow> c)"

definition upper_char :: "char \<Rightarrow> char" where
  "upper_char c = (case map_of (zip ascii_lowercase ascii_uppercase) c of
                     Some d \<Rightarrow> d | None \<Rightarrow> c)"

text \<open>\<open>s.strip()\<close>: leading and trailing whitespace removed.\<close>

definition strip :: "string \<Rightarrow> string" where
  "strip s = rev (dropWhile isspace (rev (dropWhile isspace s)))"

text \<open>\<open>s.lower()\<close>.\<close>

definition lower :: "string \<Rightarrow> string" where
  "lower s = map lower_char s"

text \<open>\<open>s.capitalize()\<close>: first character upper case, the rest lower case.\<close>

fun capitalize :: "string \<Rightarrow> string" where
  "capitalize [] = []"
| "capitalize (c # cs) = upper_char c # lower cs"

section \<open>The two regular expressions\<close>

text \<open>
  \<open>SPLIT_RE = re.compile(r'[,;|]+')\<close>. \<open>SPLIT_RE.split(s)\<close> cuts \<open>s\<close> at every maximal run
  of delimiter characters and returns the pieces between the runs, an empty piece
  included when \<open>s\<close> starts or ends with a run.
\<close>

definition is_delim :: "char \<Rightarrow> bool" where
  "is_delim c \<longleftrightarrow> c \<in> set '',;|''"

function SPLIT_RE_split :: "string \<Rightarrow> string list" where
  "SPLIT_RE_split [] = [[]]"
| "SPLIT_RE_split (c # cs) =
     (if is_delim c then [] # SPLIT_RE_split (dropWhile is_delim cs)
      else (case SPLIT_RE_split cs of
              [] \<Rightarrow> [[c]]
            | p # ps \<Rightarrow> (c # p) # ps))"
  by pat_completeness auto

termination SPLIT_RE_split
  by (relation "measure length") (auto simp: less_Suc_eq_le length_dropWhile_le)

text \<open>
  \<open>NUM_SUFFIX_RE = re.compile(r'\d+$')\<close>. Without \<open>re.MULTILINE\<close>, \<open>$\<close> matches at the
  end of the string and also just before a newline that is the last character. So
  \<open>NUM_SUFFIX_RE.sub("", name)\<close> deletes the run of digits that ends the string or, when
  the string ends with a newline, the run of digits that ends just before that newline.
\<close>

definition rstrip_digits :: "string \<Rightarrow> string" where
  "rstrip_digits s = rev (dropWhile isdigit (rev s))"

definition NUM_SUFFIX_RE_sub :: "string \<Rightarrow> string" where
  "NUM_SUFFIX_RE_sub s =
     (if s \<noteq> [] \<and> last s = CHR 0x0A then rstrip_digits (butlast s) @ [CHR 0x0A]
      else rstrip_digits s)"

section \<open>convert.py\<close>

datatype error = IndexError

text \<open>The test \<open>not s or s in ["nan", "none"]\<close>, used on cells and on the parent cell.\<close>

definition missing :: "string \<Rightarrow> bool" where
  "missing s \<longleftrightarrow> s = [] \<or> s \<in> set [''nan'', ''none'']"

text \<open>
  \<open>normalize_cell(cell)\<close>. The argument is the text \<open>str(cell)\<close> of the cell (the table is
  read with \<open>dtype=str\<close>, so cells are strings already). \<open>has_delim s\<close> is the test
  \<open>',' in s or ';' in s or '|' in s\<close>.
\<close>

definition has_delim :: "string \<Rightarrow> bool" where
  "has_delim s \<longleftrightarrow> CHR '','' \<in> set s \<or> CHR '';'' \<in> set s \<or> CHR ''|'' \<in> set s"

definition normalize_cell :: "string \<Rightarrow> string list" where
  "normalize_cell cell =
     (let s = lower (strip cell) in
      if missing s then []
      else if has_delim s
        then [lower (strip p). p \<leftarrow> SPLIT_RE_split s, strip p \<noteq> []]
      else [s])"

text \<open>
  The adjacency map is an \<open>OrderedDict\<close>: an association list in insertion order.
  Assigning to a key keeps the position of a key already there and appends a new key
  at the end, which is \<open>AList.update\<close>.
\<close>

type_synonym pcm = "(string \<times> string list) list"

text \<open>
  The loop "remove duplicates but keep order" over \<open>raw_children\<close>, with its two
  variables \<open>seen\<close> and \<open>children\<close>.
\<close>

definition dedup_step :: "string \<Rightarrow> string set \<times> string list \<Rightarrow> string set \<times> string list" where
  "dedup_step ch st =
     (case st of (seen, children) \<Rightarrow>
        if ch \<noteq> [] \<and> ch \<notin> seen then (insert ch seen, children @ [ch]) else (seen, children))"

definition dedup :: "string list \<Rightarrow> string list" where
  "dedup raw_children = snd (fold dedup_step raw_children ({}, []))"

text \<open>
  The loop of the branch \<open>parent in pcm\<close>: each child not yet in \<open>pcm[parent]\<close> is appended
  to it.
\<close>

definition merge_step :: "string \<Rightarrow> string list \<Rightarrow> string list" where
  "merge_step ch kids = (if ch \<notin> set kids then kids @ [ch] else kids)"

definition merge_children :: "string list \<Rightarrow> string list \<Rightarrow> string list" where
  "merge_children kids children = fold merge_step children kids"

text \<open>
  One iteration of \<open>for _, row in df.iterrows()\<close>. A row is the list of its cells;
  \<open>row.iloc[0]\<close> raises \<open>IndexError\<close> on a row of a table without columns.
\<close>

definition row_step :: "pcm \<Rightarrow> string list \<Rightarrow> error + pcm" where
  "row_step pcm row =
     (case row of
        [] \<Rightarrow> Inl IndexError
      | c0 # rest \<Rightarrow>
          (let parent = lower (strip c0) in
           if missing parent then Inr pcm
           else
             (let raw_children = concat (map normalize_cell rest);
                  children = dedup raw_children
              in case map_of pcm parent of
                   Some kids \<Rightarrow> Inr (AList.update parent (merge_children kids children) pcm)
                 | None \<Rightarrow> Inr (AList.update parent children pcm))))"

fun build_loop :: "pcm \<Rightarrow> string list list \<Rightarrow> error + pcm" where
  "build_loop pcm [] = Inr pcm"
| "build_loop pcm (row # rows) =
     (case row_step pcm row of
        Inl e \<Rightarrow> Inl e
      | Inr pcm' \<Rightarrow> build_loop pcm' rows)"

definition build_parent_child_map :: "string list list \<Rightarrow> error + pcm" where
  "build_parent_child_map df = build_loop [] df"

text \<open>A tree node \<open>{"name": ..., "children": [...]}\<close>.\<close>

datatype node = Node (name: string) (children: "node list")

text \<open>\<open>pcm.get(name, [])\<close>.\<close>

definition pcm_get :: "pcm \<Rightarrow> string \<Rightarrow> string list" where
  "pcm_get pcm k = (case map_of pcm k of Some kids \<Rightarrow> kids | None \<Rightarrow> [])"

text \<open>
  \<open>make_node(name, pcm, visited)\<close>. The source adds \<open>name\<close> to the set it was handed and
  gives every child a copy of the enlarged set; all callers hand in a fresh set or a
  copy, so the enlarged set is passed down and never read back.
\<close>

function (domintros) make_node :: "string \<Rightarrow> pcm \<Rightarrow> string set \<Rightarrow> node" where
  "make_node nm pcm visited =
     (if nm \<in> visited then Node nm []
      else Node nm (map (\<lambda>ch. make_node ch pcm (insert nm visited)) (pcm_get pcm nm)))"
  by pat_completeness auto

termination make_node
proof (relation "measure (\<lambda>(nm, pcm, visited). card (fst ` set pcm - visited))")
  show "wf (measure (\<lambda>(nm, pcm, visited). card (fst ` set pcm - visited)))"
    by simp
next
  fix nm :: string and pcm :: pcm and visited :: "string set" and ch :: string
  assume fresh: "nm \<notin> visited" and ch: "ch \<in> set (pcm_get pcm nm)"
  from ch obtain kids where "map_of pcm nm = Some kids"
    by (cases "map_of pcm nm") (auto simp: pcm_get_def)
  then have "(nm, kids) \<in> set pcm" by (rule map_of_SomeD)
  then have key: "nm \<in> fst ` set pcm" by force
  have "fst ` set pcm - insert nm visited \<subset> fst ` set pcm - visited"
    using fresh key by auto
  then have "card (fst ` set pcm - insert nm visited) < card (fst ` set pcm - visited)"
    by (intro psubset_card_mono) auto
  then show "((ch, pcm, insert nm visited), (nm, pcm, visited))
      \<in> measure (\<lambda>(nm, pcm, visited). card (fst ` set pcm - visited))"
    by simp
qed

text \<open>
  The result of \<open>build_tree\<close> is a single node when the forest has exactly one tree and
  the list of trees otherwise.
\<close>

datatype tree = Single node | Forest "node list"

text \<open>The first four lines of \<open>build_tree\<close>: the sequence \<open>roots\<close>.\<close>

definition all_children :: "pcm \<Rightarrow> string set" where
  "all_children pcm = set (concat (map snd pcm))"

definition root_candidates :: "pcm \<Rightarrow> string list" where
  "root_candidates pcm = [p \<leftarrow> map fst pcm. p \<notin> all_children pcm]"

definition roots :: "pcm \<Rightarrow> string list" where
  "roots pcm = (if root_candidates pcm = [] then map fst pcm else root_candidates pcm)"

definition build_tree :: "pcm \<Rightarrow> tree" where
  "build_tree pcm =
     (let forest = map (\<lambda>r. make_node r pcm {}) (roots pcm)
      in if length forest = 1 then Single (forest ! 0) else Forest forest)"

text \<open>\<open>clean_name(name)\<close>.\<close>

definition clean_name :: "string \<Rightarrow> string" where
  "clean_name nm = (if nm = [] then nm else capitalize (NUM_SUFFIX_RE_sub nm))"

text \<open>
  \<open>transform_names(node)\<close>: the node after the pass, which is also what the call returns.
\<close>

fun transform_names :: "node \<Rightarrow> node" where
  "transform_names (Node nm kids) = Node (clean_name nm) (map transform_names kids)"

text \<open>The body of \<open>main\<close> between reading the table and writing the file.\<close>

definition pipeline :: "string list list \<Rightarrow> error + tree" where
  "pipeline df =
     (case build_parent_child_map df of
        Inl e \<Rightarrow> Inl e
      | Inr pcm \<Rightarrow>
          Inr (case build_tree pcm of
                 Forest ts \<Rightarrow> Forest (map transform_names ts)
               | Single t \<Rightarrow> Single (transform_names t)))"

text \<open>
  The same pass on objects in a store, to speak about what it mutates and which object it
  returns. A node object has a name and the list of references to its children; the pass
  overwrites the name of the object at \<open>r\<close>, visits the children in order and returns \<open>r\<close>.
  The first argument bounds the depth of the recursion: when it is used up the call has
  no result, as on a store whose child references form a cycle.
\<close>

type_synonym ref = nat

record obj =
  obj_name :: string
  obj_children :: "ref list"

type_synonym heap = "ref \<Rightarrow> obj option"

fun transform_names_heap :: "nat \<Rightarrow> heap \<Rightarrow> ref \<Rightarrow> (heap \<times> ref) option"
  and transform_children :: "nat \<Rightarrow> heap \<Rightarrow> ref list \<Rightarrow> heap option" where
  "transform_names_heap 0 h r = None"
| "transform_names_heap (Suc fuel) h r =
     (case h r of
        None \<Rightarrow> None
      | Some node \<Rightarrow>
          (case transform_children fuel
                  (h(r \<mapsto> node\<lparr>obj_name := clean_name (obj_name node)\<rparr>)) (obj_children node) of
             None \<Rightarrow> None
           | Some h' \<Rightarrow> Some (h', r)))"
| "transform_children fuel h [] = Some h"
| "transform_children fuel h (child # rest) =
     (case transform_names_heap fuel h child of
        None \<Rightarrow> None
      | Some (h', ret) \<Rightarrow> transform_children fuel h' rest)"

text \<open>
  A tree-shaped region of a store: the references of its objects arranged as a tree,
  \<open>laid_out\<close> when every object lists exactly the references below it. \<open>tree_of\<close> reads the
  tree of names off the store, \<open>clean_on S\<close> is the store with the name of every object in
  \<open>S\<close> cleaned once.
\<close>

datatype rnode = RNode (rref: ref) (rkids: "rnode list")

fun refs :: "rnode \<Rightarrow> ref list" where
  "refs (RNode r kids) = r # concat (map refs kids)"

fun rheight :: "rnode \<Rightarrow> nat" where
  "rheight (RNode r kids) = Suc (fold max (map rheight kids) 0)"

fun laid_out :: "heap \<Rightarrow> rnode \<Rightarrow> bool" where
  "laid_out h (RNode r kids) \<longleftrightarrow>
     (case h r of None \<Rightarrow> False | Some node \<Rightarrow> obj_children node = map rref kids)
     \<and> list_all (laid_out h) kids"

fun tree_of :: "heap \<Rightarrow> rnode \<Rightarrow> node" where
  "tree_of h (RNode r kids) =
     Node (case h r of None \<Rightarrow> [] | Some node \<Rightarrow> obj_name node) (map (tree_of h) kids)"

definition clean_on :: "ref set \<Rightarrow> heap \<Rightarrow> heap" where
  "clean_on S h =
     (\<lambda>a. if a \<in> S
          then (case h a of None \<Rightarrow> None
                | Some node \<Rightarrow> Some (node\<lparr>obj_name := clean_name (obj_name node)\<rparr>))
          else h a)"

section \<open>Notions used to state the properties\<close>

text \<open>
  A token as the data model describes it: trimmed, lower case, not empty and not one of
  the markers of a missing value.
\<close>

definition token :: "string \<Rightarrow> bool" where
  "token t \<longleftrightarrow> strip t = t \<and> lower t = t \<and> t \<noteq> [] \<and> t \<noteq> ''nan'' \<and> t \<noteq> ''none''"

text \<open>The list without its repetitions, every element at the place of its first occurrence.\<close>

fun first_occ :: "'a list \<Rightarrow> 'a list" where
  "first_occ [] = []"
| "first_occ (x # xs) = x # [y \<leftarrow> first_occ xs. y \<noteq> x]"

text \<open>
  The adjacency map as section 4.2 words it: the parent token of a row, the child tokens
  of a row, and for every parent in order of first appearance the children of all its
  rows in order of first occurrence.
\<close>

definition row_parent :: "string list \<Rightarrow> string" where
  "row_parent row = (case row of [] \<Rightarrow> [] | c0 # rest \<Rightarrow> lower (strip c0))"

definition row_children :: "string list \<Rightarrow> string list" where
  "row_children row = (case row of [] \<Rightarrow> [] | c0 # rest \<Rightarrow> concat (map normalize_cell rest))"

definition parents_of :: "string list list \<Rightarrow> string list" where
  "parents_of df = map row_parent [row \<leftarrow> df. \<not> missing (row_parent row)]"

definition children_of :: "string list list \<Rightarrow> string \<Rightarrow> string list" where
  "children_of df p = concat (map row_children [row \<leftarrow> df. row_parent row = p])"

definition adjacency_spec :: "string list list \<Rightarrow> pcm" where
  "adjacency_spec df = map (\<lambda>p. (p, first_occ (children_of df p))) (first_occ (parents_of df))"

text \<open>
  The number of nodes on the longest branch of a tree. A call of \<open>make_node\<close> returns one
  node whose children are the results of the calls it makes, so this is the depth the
  recursion reached.
\<close>

fun depth :: "node \<Rightarrow> nat" where
  "depth (Node nm kids) = Suc (fold max (map depth kids) 0)"

text \<open>
  An acyclic path of the map: parent keys, no key twice, each one listing the next among
  its children.
\<close>

fun linked :: "pcm \<Rightarrow> string list \<Rightarrow> bool" where
  "linked pcm (x # y # ys) \<longleftrightarrow> y \<in> set (pcm_get pcm x) \<and> linked pcm (y # ys)"
| "linked pcm ys \<longleftrightarrow> True"

definition acyclic_path :: "pcm \<Rightarrow> string list \<Rightarrow> bool" where
  "acyclic_path pcm p \<longleftrightarrow> distinct p \<and> set p \<subseteq> fst ` set pcm \<and> linked pcm p"

text \<open>The structure of a tree with the names left out, and the names in preorder.\<close>

datatype skeleton = Skeleton "skeleton list"

fun skeleton_of :: "node \<Rightarrow> skeleton" where
  "skeleton_of (Node nm kids) = Skeleton (map skeleton_of kids)"

fun names_of :: "node \<Rightarrow> string list" where
  "names_of (Node nm kids) = nm # concat (map names_of kids)"

section \<open>The cell normalizer and the name cleanup\<close>

lemma lower_char_idem: "lower_char (lower_char c) = lower_char c"
  by (simp add: lower_char_def ascii_uppercase_def ascii_lowercase_def)

lemma isspace_lower_char: "isspace (lower_char c) = isspace c"
  by (simp add: lower_char_def ascii_uppercase_def ascii_lowercase_def isspace_def)

lemma is_delim_lower_char: "is_delim (lower_char c) = is_delim c"
  by (simp add: lower_char_def ascii_uppercase_def ascii_lowercase_def is_delim_def)

lemma lower_idem: "lower (lower s) = lower s"
  by (simp add: lower_def lower_char_idem)

lemma lower_Nil_iff: "lower s = [] \<longleftrightarrow> s = []"
  by (simp add: lower_def)

lemma dropWhile_lower_char:
  "dropWhile isspace (map lower_char xs) = map lower_char (dropWhile isspace xs)"
  by (induction xs) (simp_all add: isspace_lower_char)

lemma strip_lower: "strip (lower s) = lower (strip s)"
  by (simp add: strip_def lower_def dropWhile_lower_char rev_map)

lemma rstrip_front:
  assumes "dropWhile P xs = xs"
  shows "dropWhile P (rev (dropWhile P (rev xs))) = rev (dropWhile P (rev xs))"
proof (cases "rev (dropWhile P (rev xs)) = []")
  case True
  then show ?thesis by (simp only: dropWhile.simps)
next
  case False
  have "rev xs = takeWhile P (rev xs) @ dropWhile P (rev xs)" by simp
  then have "rev (rev xs) = rev (takeWhile P (rev xs) @ dropWhile P (rev xs))" by (rule arg_cong)
  then have split: "xs = rev (dropWhile P (rev xs)) @ rev (takeWhile P (rev xs))"
    by (simp only: rev_rev_ident rev_append)
  with False have "hd (rev (dropWhile P (rev xs))) = hd xs"
    by (metis hd_append2)
  moreover from split False have "xs \<noteq> []" by auto
  with assms have "\<not> P (hd xs)" by (metis hd_dropWhile)
  ultimately show ?thesis using False by (simp add: dropWhile_eq_self_iff)
qed

lemma strip_idem: "strip (strip s) = strip s"
proof -
  have "dropWhile isspace (dropWhile isspace s) = dropWhile isspace s" by simp
  then have "dropWhile isspace (rev (dropWhile isspace (rev (dropWhile isspace s))))
      = rev (dropWhile isspace (rev (dropWhile isspace s)))"
    by (rule rstrip_front)
  then show ?thesis by (simp add: strip_def)
qed

lemma strip_lower_strip: "strip (lower (strip s)) = lower (strip s)"
  by (simp add: strip_lower strip_idem)

lemma split_no_delim_all: "\<forall>p\<in>set (SPLIT_RE_split s). \<forall>c\<in>set p. \<not> is_delim c"
proof (induction s rule: SPLIT_RE_split.induct)
  case 1
  then show ?case by simp
next
  case (2 d ds)
  show ?case
  proof (cases "is_delim d")
    case True
    with 2 show ?thesis by simp
  next
    case False
    with 2 show ?thesis by (cases "SPLIT_RE_split ds") auto
  qed
qed

lemma set_strip_subset: "set (strip s) \<subseteq> set s"
  unfolding strip_def by (metis set_dropWhileD set_rev subsetI)

lemma has_delim_iff: "has_delim s \<longleftrightarrow> (\<exists>c\<in>set s. is_delim c)"
  by (auto simp: has_delim_def is_delim_def)

lemma has_delim_lower: "has_delim (lower s) = has_delim s"
  by (auto simp: has_delim_iff lower_def is_delim_lower_char)

lemma has_delim_strip: "has_delim (strip s) \<Longrightarrow> has_delim s"
  using set_strip_subset by (auto simp: has_delim_iff)

lemma split_no_delim: "p \<in> set (SPLIT_RE_split s) \<Longrightarrow> \<not> has_delim p"
  using split_no_delim_all by (auto simp: has_delim_iff)

lemma normalize_cell_elems:
  assumes "t \<in> set (normalize_cell cell)"
  shows "strip t = t \<and> lower t = t \<and> t \<noteq> [] \<and> \<not> has_delim t"
proof (cases "has_delim (lower (strip cell))")
  case True
  with assms obtain p where p: "p \<in> set (SPLIT_RE_split (lower (strip cell)))"
      "strip p \<noteq> []" "t = lower (strip p)"
    by (auto simp: normalize_cell_def Let_def split: if_splits)
  from p(1) have "\<not> has_delim p" by (rule split_no_delim)
  then have "\<not> has_delim (strip p)" using has_delim_strip by blast
  then have "\<not> has_delim t" using p(3) by (simp add: has_delim_lower)
  then show ?thesis
    using p by (simp add: strip_lower_strip lower_idem lower_Nil_iff)
next
  case False
  with assms have t: "t = lower (strip cell)" "\<not> missing (lower (strip cell))"
    by (auto simp: normalize_cell_def Let_def split: if_splits)
  then show ?thesis
    using False by (simp add: strip_lower_strip lower_idem missing_def)
qed

lemma normalize_cell_plain:
  assumes "\<not> has_delim cell"
  shows "normalize_cell cell = (if missing (lower (strip cell)) then [] else [lower (strip cell)])"
proof -
  from assms have "\<not> has_delim (strip cell)" using has_delim_strip by blast
  then have "\<not> has_delim (lower (strip cell))" by (simp add: has_delim_lower)
  then show ?thesis
    by (simp add: normalize_cell_def Let_def)
qed

lemma normalize_cell_again:
  assumes "t \<in> set (normalize_cell cell)" "t \<noteq> ''nan''" "t \<noteq> ''none''"
  shows "normalize_cell t = [t]"
  using normalize_cell_elems [OF assms(1)] assms(2,3)
  by (simp add: normalize_cell_plain missing_def)

text \<open>
  C6, as stated, does not hold: from the cell \<open>"nan,bob"\<close> the normalizer returns the two
  parts \<open>"nan"\<close> and \<open>"bob"\<close>, and the first is a marker of a missing value, so not a
  token. The test for the markers is made on the whole cell only.
\<close>

theorem normalize_cell_token_counterexample:
  "''nan'' \<in> set (normalize_cell ''nan,bob'') \<and> \<not> token ''nan''"
proof -
  have "normalize_cell ''nan,bob'' = [''nan'', ''bob'']" by code_simp
  then show ?thesis by (simp add: token_def)
qed

text \<open>
  C6, amended. Every element of the sequence returned by \<open>normalize_cell\<close> is trimmed,
  lower case and not empty; when the cell holds no delimiter character the element is
  a token, so it is not \<open>"nan"\<close> or \<open>"none"\<close> either.
\<close>

theorem normalize_cell_elements:
  assumes "t \<in> set (normalize_cell cell)"
  shows "strip t = t \<and> lower t = t \<and> t \<noteq> [] \<and> (\<not> has_delim cell \<longrightarrow> token t)"
proof -
  have shape: "strip t = t \<and> lower t = t \<and> t \<noteq> [] \<and> \<not> has_delim t"
    using assms by (rule normalize_cell_elems)
  have "token t" if "\<not> has_delim cell"
  proof -
    from that assms have "\<not> missing t"
      by (auto simp: normalize_cell_plain split: if_splits)
    with shape show ?thesis by (simp add: token_def missing_def)
  qed
  with shape show ?thesis by blast
qed

theorem normalize_cell_elements_witness:
  "''alice'' \<in> set (normalize_cell '' Alice '') \<and> \<not> has_delim '' Alice '' \<and> token ''alice''
   \<and> strip ''alice'' = ''alice'' \<and> lower ''alice'' = ''alice''"
proof -
  have cell: "normalize_cell '' Alice '' = [''alice'']" by code_simp
  then have mem: "''alice'' \<in> set (normalize_cell '' Alice '')" by simp
  have plain: "\<not> has_delim '' Alice ''" by (simp add: has_delim_def)
  from normalize_cell_elements [OF mem] plain mem show ?thesis by blast
qed

text \<open>
  C7, as stated, does not hold: \<open>"a,b"\<close> is trimmed, lower case, not empty and not a marker
  of a missing value (it is the parent token of a row whose first cell is \<open>"a,b"\<close>), and
  the normalizer splits it into \<open>"a"\<close> and \<open>"b"\<close>.
\<close>

theorem normalize_cell_idempotent_counterexample:
  "token ''a,b'' \<and> normalize_cell ''a,b'' \<noteq> [''a,b'']"
proof -
  have "strip ''a,b'' = ''a,b''" by code_simp
  moreover have "lower ''a,b'' = ''a,b''" by code_simp
  ultimately have "token ''a,b''" by (simp add: token_def)
  moreover have "normalize_cell ''a,b'' = [''a'', ''b'']" by code_simp
  ultimately show ?thesis by simp
qed

text \<open>
  C7, amended. For every token \<open>t\<close> (trimmed, lower case, not empty, not a marker of a
  missing value) that holds no comma, semicolon or pipe, \<open>normalize_cell t\<close> is the
  one-element sequence \<open>[t]\<close>.
\<close>

theorem normalize_cell_idempotent:
  assumes "token t" and "\<not> has_delim t"
  shows "normalize_cell t = [t]"
  using assms by (simp add: normalize_cell_plain token_def missing_def)

theorem normalize_cell_idempotent_witness:
  "token ''alice'' \<and> \<not> has_delim ''alice'' \<and> normalize_cell ''alice'' = [''alice'']"
proof -
  have "strip ''alice'' = ''alice''" by code_simp
  moreover have "lower ''alice'' = ''alice''" by code_simp
  ultimately have tok: "token ''alice''" by (simp add: token_def)
  have plain: "\<not> has_delim ''alice''" by (simp add: has_delim_def)
  from normalize_cell_idempotent [OF tok plain] tok plain show ?thesis by blast
qed



section \<open>The adjacency builder\<close>

lemma set_first_occ: "set (first_occ xs) = set xs"
  by (induction xs) auto

lemma distinct_first_occ: "distinct (first_occ xs)"
  by (induction xs) (auto simp: set_first_occ)

lemma first_occ_distinct: "distinct xs \<Longrightarrow> first_occ xs = xs"
  by (induction xs) (auto simp: set_first_occ filter_id_conv)

lemma first_occ_append:
  "first_occ (xs @ ys) = first_occ xs @ [y \<leftarrow> first_occ ys. y \<notin> set xs]"
proof (induction xs arbitrary: ys)
  case Nil
  then show ?case by simp
next
  case (Cons x xs)
  have "[y \<leftarrow> first_occ xs @ [y \<leftarrow> first_occ ys. y \<notin> set xs]. y \<noteq> x]
      = [y \<leftarrow> first_occ xs. y \<noteq> x] @ [y \<leftarrow> first_occ ys. y \<notin> set (x # xs)]"
    by (auto intro: filter_cong)
  with Cons show ?case by simp
qed

lemma fold_dedup_step:
  "fold dedup_step raw (set acc, acc)
     = (set acc \<union> {x \<in> set raw. x \<noteq> []}, acc @ [x \<leftarrow> first_occ raw. x \<noteq> [] \<and> x \<notin> set acc])"
proof (induction raw arbitrary: acc)
  case Nil
  then show ?case by simp
next
  case (Cons r rs)
  show ?case
  proof (cases "r \<noteq> [] \<and> r \<notin> set acc")
    case True
    then have "fold dedup_step (r # rs) (set acc, acc) = fold dedup_step rs (set (acc @ [r]), acc @ [r])"
      by (simp add: dedup_step_def)
    also have "\<dots> = (set (acc @ [r]) \<union> {x \<in> set rs. x \<noteq> []},
        (acc @ [r]) @ [x \<leftarrow> first_occ rs. x \<noteq> [] \<and> x \<notin> set (acc @ [r])])"
      by (rule Cons.IH)
    also have "\<dots> = (set acc \<union> {x \<in> set (r # rs). x \<noteq> []},
        acc @ [x \<leftarrow> first_occ (r # rs). x \<noteq> [] \<and> x \<notin> set acc])"
      using True by (auto intro: filter_cong)
    finally show ?thesis .
  next
    case False
    then have "fold dedup_step (r # rs) (set acc, acc) = fold dedup_step rs (set acc, acc)"
      by (auto simp: dedup_step_def)
    also have "\<dots> = (set acc \<union> {x \<in> set rs. x \<noteq> []},
        acc @ [x \<leftarrow> first_occ rs. x \<noteq> [] \<and> x \<notin> set acc])"
      by (rule Cons.IH)
    also have "\<dots> = (set acc \<union> {x \<in> set (r # rs). x \<noteq> []},
        acc @ [x \<leftarrow> first_occ (r # rs). x \<noteq> [] \<and> x \<notin> set acc])"
      using False by (auto intro: filter_cong)
    finally show ?thesis .
  qed
qed

lemma dedup_first_occ: "dedup raw = [x \<leftarrow> first_occ raw. x \<noteq> []]"
  using fold_dedup_step [of raw "[]"] by (simp add: dedup_def)

lemma merge_children_first_occ:
  "merge_children kids new = kids @ [c \<leftarrow> first_occ new. c \<notin> set kids]"
  unfolding merge_children_def
proof (induction new arbitrary: kids)
  case Nil
  then show ?case by simp
next
  case (Cons c cs)
  show ?case
  proof (cases "c \<in> set kids")
    case True
    then have "fold merge_step (c # cs) kids = fold merge_step cs kids"
      by (simp add: merge_step_def)
    also have "\<dots> = kids @ [x \<leftarrow> first_occ cs. x \<notin> set kids]" by (rule Cons.IH)
    also have "\<dots> = kids @ [x \<leftarrow> first_occ (c # cs). x \<notin> set kids]"
      using True by (auto intro: filter_cong)
    finally show ?thesis .
  next
    case False
    then have "fold merge_step (c # cs) kids = fold merge_step cs (kids @ [c])"
      by (simp add: merge_step_def)
    also have "\<dots> = (kids @ [c]) @ [x \<leftarrow> first_occ cs. x \<notin> set (kids @ [c])]" by (rule Cons.IH)
    also have "\<dots> = kids @ [x \<leftarrow> first_occ (c # cs). x \<notin> set kids]"
      using False by (auto intro: filter_cong)
    finally show ?thesis .
  qed
qed

lemma row_children_nonempty: "c \<in> set (row_children row) \<Longrightarrow> c \<noteq> []"
  using normalize_cell_elems by (auto simp: row_children_def split: list.splits)

lemma dedup_row_children: "dedup (row_children row) = first_occ (row_children row)"
proof -
  have "[x \<leftarrow> first_occ (row_children row). x \<noteq> []] = first_occ (row_children row)"
    using row_children_nonempty by (auto simp: filter_id_conv set_first_occ)
  then show ?thesis by (simp add: dedup_first_occ)
qed

lemma row_step_eq:
  "row_step pcm row =
     (if row = [] then Inl IndexError
      else if missing (row_parent row) then Inr pcm
      else Inr (AList.update (row_parent row)
                  (first_occ (pcm_get pcm (row_parent row) @ row_children row)) pcm))"
  if "\<And>p kids. map_of pcm p = Some kids \<Longrightarrow> distinct kids"
proof (cases row)
  case Nil
  then show ?thesis by (simp add: row_step_def)
next
  case (Cons c0 rest)
  show ?thesis
  proof (cases "map_of pcm (row_parent row)")
    case None
    then show ?thesis
      using Cons dedup_row_children [of row]
      by (simp add: row_step_def Let_def row_parent_def row_children_def pcm_get_def)
  next
    case (Some kids)
    then have "distinct kids" by (rule that)
    then have "first_occ (kids @ row_children row)
        = merge_children kids (dedup (row_children row))"
      by (simp add: first_occ_append merge_children_first_occ dedup_row_children
          first_occ_distinct distinct_first_occ)
    then show ?thesis
      using Cons Some
      by (simp add: row_step_def Let_def row_parent_def row_children_def pcm_get_def)
  qed
qed

lemma build_loop_append:
  "build_loop pcm (xs @ ys) =
     (case build_loop pcm xs of Inl e \<Rightarrow> Inl e | Inr pcm' \<Rightarrow> build_loop pcm' ys)"
  by (induction xs arbitrary: pcm) (auto split: sum.splits)

lemma first_occ_idem: "first_occ (first_occ xs) = first_occ xs"
  by (simp add: first_occ_distinct distinct_first_occ)

lemma first_occ_append_left: "first_occ (first_occ xs @ ys) = first_occ (xs @ ys)"
  by (simp add: first_occ_append first_occ_idem set_first_occ)

lemma first_occ_snoc:
  "first_occ (xs @ [x]) = (if x \<in> set xs then first_occ xs else first_occ xs @ [x])"
  by (simp add: first_occ_append)

lemma update_fresh: "k \<notin> fst ` set al \<Longrightarrow> AList.update k v al = al @ [(k, v)]"
  by (induction al) auto

lemma update_present:
  "k \<in> set ks \<Longrightarrow> distinct ks \<Longrightarrow>
   AList.update k v (map (\<lambda>q. (q, f q)) ks) = map (\<lambda>q. (q, if q = k then v else f q)) ks"
proof (induction ks)
  case Nil
  then show ?case by simp
next
  case (Cons a ks)
  show ?case
  proof (cases "a = k")
    case True
    with Cons.prems have "k \<notin> set ks" by simp
    then have "map (\<lambda>q. (q, if q = k then v else f q)) ks = map (\<lambda>q. (q, f q)) ks"
      by (intro map_cong) auto
    with True show ?thesis by simp
  next
    case False
    with Cons show ?thesis by simp
  qed
qed

lemma map_of_table:
  "map_of (map (\<lambda>q. (q, f q)) ks) p = (if p \<in> set ks then Some (f p) else None)"
  by (induction ks) auto

lemma parents_of_snoc:
  "parents_of (df @ [row])
     = parents_of df @ (if missing (row_parent row) then [] else [row_parent row])"
  by (simp add: parents_of_def)

lemma children_of_snoc:
  "children_of (df @ [row]) q
     = children_of df q @ (if row_parent row = q then row_children row else [])"
  by (simp add: children_of_def)

lemma parents_of_present: "p \<in> set (parents_of df) \<Longrightarrow> \<not> missing p"
  by (auto simp: parents_of_def)

lemma children_of_absent:
  assumes "p \<notin> set (parents_of df)" "\<not> missing p"
  shows "children_of df p = []"
proof -
  have "[row \<leftarrow> df. row_parent row = p] = []"
    using assms by (auto simp: parents_of_def filter_empty_conv)
  then show ?thesis by (simp add: children_of_def)
qed

lemma adjacency_spec_kids_distinct:
  "map_of (adjacency_spec df) p = Some kids \<Longrightarrow> distinct kids"
  by (auto simp: adjacency_spec_def map_of_table distinct_first_occ split: if_splits)

lemma pcm_get_adjacency_spec:
  "pcm_get (adjacency_spec df) p
     = (if p \<in> set (parents_of df) then first_occ (children_of df p) else [])"
  by (simp add: pcm_get_def adjacency_spec_def map_of_table set_first_occ)

lemma adjacency_spec_step:
  assumes "row \<noteq> []"
  shows "row_step (adjacency_spec df) row = Inr (adjacency_spec (df @ [row]))"
proof -
  let ?p = "row_parent row" and ?cs = "row_children row"
  let ?ks = "first_occ (parents_of df)"
  let ?f = "\<lambda>q. first_occ (children_of df q)"
  let ?f' = "\<lambda>q. first_occ (children_of (df @ [row]) q)"
  have "row_step (adjacency_spec df) row =
      (if row = [] then Inl IndexError
       else if missing ?p then Inr (adjacency_spec df)
       else Inr (AList.update ?p (first_occ (pcm_get (adjacency_spec df) ?p @ ?cs))
               (adjacency_spec df)))"
    by (rule row_step_eq) (rule adjacency_spec_kids_distinct)
  with assms have step: "row_step (adjacency_spec df) row =
      (if missing ?p then Inr (adjacency_spec df)
       else Inr (AList.update ?p (first_occ (pcm_get (adjacency_spec df) ?p @ ?cs))
               (adjacency_spec df)))"
    by (simp only: if_False)
  have spec: "adjacency_spec df = map (\<lambda>q. (q, ?f q)) ?ks"
    by (simp only: adjacency_spec_def)
  show ?thesis
  proof (cases "missing ?p")
    case True
    have "map (\<lambda>q. (q, ?f' q)) ?ks = map (\<lambda>q. (q, ?f q)) ?ks"
    proof (rule map_cong [OF refl])
      fix q assume "q \<in> set ?ks"
      then have "\<not> missing q" using parents_of_present by (simp add: set_first_occ)
      with True have "?p \<noteq> q" by auto
      then show "(q, ?f' q) = (q, ?f q)" by (simp add: children_of_snoc)
    qed
    then have "adjacency_spec (df @ [row]) = adjacency_spec df"
      using True by (simp add: adjacency_spec_def parents_of_snoc)
    with step True show ?thesis by (simp only: if_True)
  next
    case False
    show ?thesis
    proof (cases "?p \<in> set (parents_of df)")
      case True
      have new: "first_occ (pcm_get (adjacency_spec df) ?p @ ?cs) = ?f' ?p"
        using True by (simp add: pcm_get_adjacency_spec first_occ_append_left children_of_snoc)
      have "AList.update ?p (?f' ?p) (map (\<lambda>q. (q, ?f q)) ?ks)
          = map (\<lambda>q. (q, if q = ?p then ?f' ?p else ?f q)) ?ks"
        using True by (intro update_present) (simp_all add: set_first_occ distinct_first_occ)
      also have "\<dots> = map (\<lambda>q. (q, ?f' q)) ?ks"
        by (rule map_cong [OF refl]) (simp add: children_of_snoc)
      also have "\<dots> = adjacency_spec (df @ [row])"
        using True False by (simp add: adjacency_spec_def parents_of_snoc first_occ_snoc)
      finally have "AList.update ?p (?f' ?p) (adjacency_spec df) = adjacency_spec (df @ [row])"
        by (simp only: spec)
      with step False new show ?thesis by (simp only: if_False)
    next
      case absent: False
      have new: "first_occ (pcm_get (adjacency_spec df) ?p @ ?cs) = ?f' ?p"
        using absent False
        by (simp add: pcm_get_adjacency_spec children_of_snoc children_of_absent)
      have same: "map (\<lambda>q. (q, ?f q)) ?ks = map (\<lambda>q. (q, ?f' q)) ?ks"
      proof (rule map_cong [OF refl])
        fix q assume "q \<in> set ?ks"
        with absent have "?p \<noteq> q" by (auto simp: set_first_occ)
        then show "(q, ?f q) = (q, ?f' q)" by (simp add: children_of_snoc)
      qed
      have "?p \<notin> fst ` set (map (\<lambda>q. (q, ?f q)) ?ks)"
        using absent by (simp add: image_image set_first_occ)
      then have "AList.update ?p (?f' ?p) (map (\<lambda>q. (q, ?f q)) ?ks)
          = map (\<lambda>q. (q, ?f q)) ?ks @ [(?p, ?f' ?p)]"
        by (rule update_fresh)
      also have "\<dots> = map (\<lambda>q. (q, ?f' q)) ?ks @ [(?p, ?f' ?p)]"
        by (simp only: same)
      also have "\<dots> = adjacency_spec (df @ [row])"
        using absent False by (simp add: adjacency_spec_def parents_of_snoc first_occ_snoc)
      finally have "AList.update ?p (?f' ?p) (adjacency_spec df) = adjacency_spec (df @ [row])"
        by (simp only: spec)
      with step False new show ?thesis by (simp only: if_False)
    qed
  qed
qed

lemma build_loop_spec:
  "build_loop [] df = (if [] \<in> set df then Inl IndexError else Inr (adjacency_spec df))"
proof (induction df rule: rev_induct)
  case Nil
  then show ?case by (simp add: adjacency_spec_def parents_of_def)
next
  case (snoc row df)
  show ?case
  proof (cases "[] \<in> set df")
    case True
    with snoc show ?thesis by (simp add: build_loop_append)
  next
    case False
    with snoc have "build_loop [] (df @ [row]) = build_loop (adjacency_spec df) [row]"
      by (simp add: build_loop_append)
    also have "\<dots> = (if row = [] then Inl IndexError else Inr (adjacency_spec (df @ [row])))"
    proof (cases "row = []")
      case True
      then show ?thesis by (simp add: row_step_def)
    next
      case False
      then show ?thesis by (simp add: adjacency_spec_step)
    qed
    finally show ?thesis using False by auto
  qed
qed

lemma row_step_merge:
  assumes "map_of pcm (row_parent row) = Some kids" "row \<noteq> []" "\<not> missing (row_parent row)"
  shows "row_step pcm row =
     Inr (AList.update (row_parent row)
            (kids @ [c \<leftarrow> first_occ (row_children row). c \<notin> set kids]) pcm)"
proof -
  from assms(2) obtain c0 rest where row: "row = c0 # rest" by (cases row) auto
  have "merge_children kids (dedup (row_children row))
      = kids @ [c \<leftarrow> first_occ (row_children row). c \<notin> set kids]"
    by (simp add: merge_children_first_occ dedup_row_children first_occ_idem)
  then show ?thesis
    using assms(1,3) row
    by (simp add: row_step_def Let_def row_parent_def row_children_def)
qed

text \<open>
  C2. For every table, \<open>build_parent_child_map\<close> returns the map that section 4.2
  describes (and raises \<open>IndexError\<close> exactly when a row has no cell): the parents in
  order of first appearance, and for each parent the child tokens of all its rows, every
  token once, at the place of its first occurrence. So the keys are distinct and no child
  list has a duplicate. Merging a row into an entry that exists keeps the entry's list
  and appends, in the row's order, the row's children that are not in it yet. From the
  rows \<open>[a,b]\<close>, \<open>[a,c]\<close>, \<open>[a,b]\<close> the map is \<open>a -> [b, c]\<close>.
\<close>

theorem adjacency_order_preserving:
  "build_parent_child_map df = (if [] \<in> set df then Inl IndexError else Inr (adjacency_spec df))
   \<and> distinct (map fst (adjacency_spec df))
   \<and> (\<forall>(p, kids)\<in>set (adjacency_spec df). distinct kids \<and> kids = first_occ (children_of df p))
   \<and> (map_of pcm (row_parent row) = Some kids \<and> row \<noteq> [] \<and> \<not> missing (row_parent row) \<longrightarrow>
        row_step pcm row =
          Inr (AList.update (row_parent row)
                 (kids @ [c \<leftarrow> first_occ (row_children row). c \<notin> set kids]) pcm))
   \<and> build_parent_child_map [[''a'', ''b''], [''a'', ''c''], [''a'', ''b'']]
        = Inr [(''a'', [''b'', ''c''])]"
proof (intro conjI)
  show "build_parent_child_map df
      = (if [] \<in> set df then Inl IndexError else Inr (adjacency_spec df))"
    unfolding build_parent_child_map_def by (rule build_loop_spec)
next
  have "map fst (adjacency_spec df) = first_occ (parents_of df)"
    by (simp add: adjacency_spec_def comp_def)
  then show "distinct (map fst (adjacency_spec df))"
    by (simp only: distinct_first_occ)
next
  show "\<forall>(p, kids)\<in>set (adjacency_spec df). distinct kids \<and> kids = first_occ (children_of df p)"
    by (auto simp: adjacency_spec_def distinct_first_occ)
next
  show "map_of pcm (row_parent row) = Some kids \<and> row \<noteq> [] \<and> \<not> missing (row_parent row) \<longrightarrow>
        row_step pcm row =
          Inr (AList.update (row_parent row)
                 (kids @ [c \<leftarrow> first_occ (row_children row). c \<notin> set kids]) pcm)"
    using row_step_merge by blast
next
  show "build_parent_child_map [[''a'', ''b''], [''a'', ''c''], [''a'', ''b'']]
        = Inr [(''a'', [''b'', ''c''])]"
    by code_simp
qed

theorem adjacency_order_preserving_witness:
  "build_parent_child_map [[''a'', ''b, c''], [''b'', ''d''], [''a'', ''c;e;b'']]
     = Inr [(''a'', [''b'', ''c'', ''e'']), (''b'', [''d''])]
   \<and> adjacency_spec [[''a'', ''b, c''], [''b'', ''d''], [''a'', ''c;e;b'']]
     = [(''a'', [''b'', ''c'', ''e'']), (''b'', [''d''])]
   \<and> row_step [(''a'', [''b'', ''c'']), (''b'', [''d''])] [''a'', ''c;e;b'']
     = Inr [(''a'', [''b'', ''c'', ''e'']), (''b'', [''d''])]"
proof -
  let ?df = "[[''a'', ''b, c''], [''b'', ''d''], [''a'', ''c;e;b'']]"
  let ?pcm = "[(''a'', [''b'', ''c'']), (''b'', [''d''])]"
  let ?row = "[''a'', ''c;e;b'']"
  note inst = adjacency_order_preserving [of ?df ?pcm ?row "[''b'', ''c'']"]
  have spec: "adjacency_spec ?df = [(''a'', [''b'', ''c'', ''e'']), (''b'', [''d''])]"
    by code_simp
  have parent: "row_parent ?row = ''a''" by code_simp
  have kids: "first_occ (row_children ?row) = [''c'', ''e'', ''b'']" by code_simp
  have nm: "\<not> missing ''a''" by (simp add: missing_def)
  from inst have "build_parent_child_map ?df = Inr (adjacency_spec ?df)" by simp
  then have a: "build_parent_child_map ?df = Inr [(''a'', [''b'', ''c'', ''e'']), (''b'', [''d''])]"
    by (simp only: spec)
  have "map_of ?pcm (row_parent ?row) = Some [''b'', ''c''] \<and> ?row \<noteq> []
      \<and> \<not> missing (row_parent ?row)"
    using nm by (simp add: parent)
  with inst have "row_step ?pcm ?row =
      Inr (AList.update (row_parent ?row)
        ([''b'', ''c''] @ [c \<leftarrow> first_occ (row_children ?row). c \<notin> set [''b'', ''c'']]) ?pcm)"
    by blast
  then have b: "row_step ?pcm ?row = Inr [(''a'', [''b'', ''c'', ''e'']), (''b'', [''d''])]"
    by (simp add: parent kids)
  show ?thesis by (intro conjI a spec b)
qed

section \<open>Root selection, materialization and the name transformer\<close>

declare make_node.simps [simp del]

lemma pcm_get_key:
  assumes "ch \<in> set (pcm_get pcm nm)"
  shows "nm \<in> fst ` set pcm"
proof -
  from assms obtain kids where "map_of pcm nm = Some kids"
    by (cases "map_of pcm nm") (auto simp: pcm_get_def)
  then have "(nm, kids) \<in> set pcm" by (rule map_of_SomeD)
  then show ?thesis by force
qed

lemma all_children_iff: "c \<in> all_children pcm \<longleftrightarrow> (\<exists>(q, kids)\<in>set pcm. c \<in> set kids)"
  by (simp add: all_children_def case_prod_beta)

lemma fold_max_cases: "fold max xs (a::nat) = a \<or> fold max xs a \<in> set xs"
proof (induction xs arbitrary: a)
  case Nil
  then show ?case by simp
next
  case (Cons x xs)
  from Cons.IH [of "max x a"] show ?case by (auto simp: max_def split: if_splits)
qed

lemma make_node_depth_path:
  "\<exists>p. distinct p \<and> set p \<subseteq> fst ` set pcm \<and> set p \<inter> visited = {} \<and> linked pcm p
       \<and> (p = [] \<or> hd p = nm) \<and> depth (make_node nm pcm visited) \<le> Suc (length p)"
proof (induction nm pcm visited rule: make_node.induct)
  case (1 nm pcm visited)
  show ?case
  proof (cases "nm \<in> visited")
    case True
    then have "depth (make_node nm pcm visited) = 1" by (simp add: make_node.simps)
    then show ?thesis by (intro exI [of _ "[]"]) simp
  next
    case False
    let ?sub = "map (\<lambda>ch. make_node ch pcm (insert nm visited)) (pcm_get pcm nm)"
    have d: "depth (make_node nm pcm visited) = Suc (fold max (map depth ?sub) 0)"
      using False by (simp add: make_node.simps)
    from fold_max_cases [of "map depth ?sub" 0]
    consider "fold max (map depth ?sub) 0 = 0"
      | ch where "ch \<in> set (pcm_get pcm nm)"
          "fold max (map depth ?sub) 0 = depth (make_node ch pcm (insert nm visited))"
      by auto
    then show ?thesis
    proof cases
      case 1
      with d show ?thesis by (intro exI [of _ "[]"]) simp
    next
      case (2 ch)
      from "1.IH" [OF False 2(1)] obtain p where p: "distinct p" "set p \<subseteq> fst ` set pcm"
          "set p \<inter> insert nm visited = {}" "linked pcm p" "p = [] \<or> hd p = ch"
          "depth (make_node ch pcm (insert nm visited)) \<le> Suc (length p)"
        by blast
      have key: "nm \<in> fst ` set pcm" using 2(1) by (rule pcm_get_key)
      have "linked pcm (nm # p)" using p(4,5) 2(1) by (cases p) auto
      moreover have "distinct (nm # p)" using p(1,3) by auto
      moreover have "set (nm # p) \<subseteq> fst ` set pcm" using p(2) key by auto
      moreover have "set (nm # p) \<inter> visited = {}" using p(3) False by auto
      moreover have "depth (make_node nm pcm visited) \<le> Suc (length (nm # p))"
        using d 2(2) p(6) by simp
      ultimately show ?thesis by (intro exI [of _ "nm # p"]) simp
    qed
  qed
qed

text \<open>
  C8. For every adjacency map, starting token and visited set, \<open>make_node\<close> terminates:
  the argument triple is in the domain of the recursion. The depth the recursion reaches
  is at most the number of tokens on some acyclic path of the map plus one, hence at most
  that of the longest such path plus one.
\<close>

theorem make_node_terminates:
  "make_node_dom (nm, pcm, visited)
   \<and> (\<exists>p. acyclic_path pcm p \<and> depth (make_node nm pcm visited) \<le> length p + 1)"
proof
  show "make_node_dom (nm, pcm, visited)"
  proof (induction "card (fst ` set pcm - visited)" arbitrary: nm visited rule: less_induct)
    case less
    show ?case
    proof (rule make_node.domintros)
      fix ch
      assume fresh: "nm \<notin> visited" and ch: "ch \<in> set (pcm_get pcm nm)"
      from ch have key: "nm \<in> fst ` set pcm" by (rule pcm_get_key)
      have "fst ` set pcm - insert nm visited \<subset> fst ` set pcm - visited"
        using fresh key by auto
      then have "card (fst ` set pcm - insert nm visited) < card (fst ` set pcm - visited)"
        by (intro psubset_card_mono) auto
      then show "make_node_dom (ch, pcm, insert nm visited)" by (rule less)
    qed
  qed
next
  from make_node_depth_path [of pcm visited nm]
  show "\<exists>p. acyclic_path pcm p \<and> depth (make_node nm pcm visited) \<le> length p + 1"
    by (auto simp: acyclic_path_def)
qed

theorem make_node_terminates_witness:
  "make_node_dom (''A'', [(''A'', [''B'']), (''B'', [''A''])], {})
   \<and> acyclic_path [(''A'', [''B'']), (''B'', [''A''])] [''A'', ''B'']
   \<and> depth (make_node ''A'' [(''A'', [''B'']), (''B'', [''A''])] {}) = 3"
proof -
  have "acyclic_path [(''A'', [''B'']), (''B'', [''A''])] [''A'', ''B'']"
    by (simp add: acyclic_path_def pcm_get_def)
  moreover have "depth (make_node ''A'' [(''A'', [''B'']), (''B'', [''A''])] {}) = 3"
    by (simp add: make_node.simps pcm_get_def)
  ultimately show ?thesis
    using make_node_terminates [of "''A''" "[(''A'', [''B'']), (''B'', [''A''])]" "{}"] by blast
qed

text \<open>
  C3. The sequence \<open>roots\<close> that \<open>build_tree\<close> materializes. When some parent key is in no
  child list, a token is a root exactly when it is a parent key that is in no parent's
  child list. When no parent key qualifies, the roots are all parent keys. In both cases
  the roots are the parent keys in insertion order with the unselected ones left out.
  For the map \<open>{A: [B], B: [C]}\<close> the roots are \<open>[A]\<close>.
\<close>

theorem roots_selection:
  "((\<exists>q\<in>set (map fst pcm). q \<notin> all_children pcm) \<longrightarrow>
      (\<forall>p. p \<in> set (roots pcm) \<longleftrightarrow> p \<in> set (map fst pcm) \<and> \<not> (\<exists>(q, kids)\<in>set pcm. p \<in> set kids)))
   \<and> (\<not> (\<exists>q\<in>set (map fst pcm). q \<notin> all_children pcm) \<longrightarrow> roots pcm = map fst pcm)
   \<and> roots pcm = [p \<leftarrow> map fst pcm. p \<in> set (roots pcm)]
   \<and> build_tree pcm = (case map (\<lambda>r. make_node r pcm {}) (roots pcm) of
                         [t] \<Rightarrow> Single t | forest \<Rightarrow> Forest forest)
   \<and> roots [(''A'', [''B'']), (''B'', [''C''])] = [''A'']"
proof (intro conjI impI)
  assume some: "\<exists>q\<in>set (map fst pcm). q \<notin> all_children pcm"
  then have "root_candidates pcm \<noteq> []"
    by (auto simp: root_candidates_def filter_empty_conv)
  then have "roots pcm = root_candidates pcm" by (simp add: roots_def)
  then show "\<forall>p. p \<in> set (roots pcm) \<longleftrightarrow>
      p \<in> set (map fst pcm) \<and> \<not> (\<exists>(q, kids)\<in>set pcm. p \<in> set kids)"
    by (simp add: root_candidates_def all_children_iff)
next
  assume "\<not> (\<exists>q\<in>set (map fst pcm). q \<notin> all_children pcm)"
  then have "root_candidates pcm = []"
    by (auto simp: root_candidates_def filter_empty_conv)
  then show "roots pcm = map fst pcm" by (simp add: roots_def)
next
  show "roots pcm = [p \<leftarrow> map fst pcm. p \<in> set (roots pcm)]"
  proof (cases "root_candidates pcm = []")
    case True
    then show ?thesis by (simp add: roots_def)
  next
    case False
    then have "roots pcm = root_candidates pcm" by (simp add: roots_def)
    moreover have "root_candidates pcm = [p \<leftarrow> map fst pcm. p \<in> set (root_candidates pcm)]"
      unfolding root_candidates_def by (rule filter_cong) auto
    ultimately show ?thesis by simp
  qed
next
  show "build_tree pcm = (case map (\<lambda>r. make_node r pcm {}) (roots pcm) of
                         [t] \<Rightarrow> Single t | forest \<Rightarrow> Forest forest)"
    by (cases "roots pcm" rule: list.exhaust; cases "tl (roots pcm)")
       (auto simp: build_tree_def Let_def)
next
  show "roots [(''A'', [''B'']), (''B'', [''C''])] = [''A'']"
    by (simp add: roots_def root_candidates_def all_children_def)
qed

theorem roots_selection_witness:
  "(\<exists>q\<in>set (map fst [(''A'', [''B'']), (''B'', [''C''])]).
      q \<notin> all_children [(''A'', [''B'']), (''B'', [''C''])])
   \<and> ''A'' \<in> set (roots [(''A'', [''B'']), (''B'', [''C''])])
   \<and> ''B'' \<notin> set (roots [(''A'', [''B'']), (''B'', [''C''])])
   \<and> \<not> (\<exists>q\<in>set (map fst [(''A'', [''B'']), (''B'', [''A''])]).
      q \<notin> all_children [(''A'', [''B'']), (''B'', [''A''])])
   \<and> roots [(''A'', [''B'']), (''B'', [''A''])] = [''A'', ''B'']"
proof -
  let ?pcm = "[(''A'', [''B'']), (''B'', [''C''])]"
  let ?cyc = "[(''A'', [''B'']), (''B'', [''A''])]"
  have some: "\<exists>q\<in>set (map fst ?pcm). q \<notin> all_children ?pcm"
    by (simp add: all_children_def)
  have none: "\<not> (\<exists>q\<in>set (map fst ?cyc). q \<notin> all_children ?cyc)"
    by (simp add: all_children_def)
  from roots_selection [of ?pcm] some
  have sel: "\<forall>p. p \<in> set (roots ?pcm) \<longleftrightarrow>
      p \<in> set (map fst ?pcm) \<and> \<not> (\<exists>(q, kids)\<in>set ?pcm. p \<in> set kids)"
    by blast
  have a: "''A'' \<in> set (roots ?pcm)" by (subst sel [rule_format]) simp
  have b: "''B'' \<notin> set (roots ?pcm)" by (subst sel [rule_format]) simp
  from roots_selection [of ?cyc] none have "roots ?cyc = map fst ?cyc" by blast
  then have c: "roots ?cyc = [''A'', ''B'']" by simp
  show ?thesis by (intro conjI some a b none c)
qed

lemma transform_names_tree:
  "skeleton_of (transform_names t) = skeleton_of t
   \<and> names_of (transform_names t) = map clean_name (names_of t)"
proof (induction t)
  case (Node nm kids)
  have skel: "map (skeleton_of \<circ> transform_names) kids = map skeleton_of kids"
    by (rule map_cong [OF refl]) (simp add: Node.IH)
  have "map (names_of \<circ> transform_names) kids = map (map clean_name \<circ> names_of) kids"
    by (rule map_cong [OF refl]) (simp add: Node.IH)
  then have nms: "concat (map (names_of \<circ> transform_names) kids)
      = concat (map (map clean_name \<circ> names_of) kids)"
    by (rule arg_cong)
  show ?case by (simp add: map_concat skel nms)
qed

lemma heap_frame:
  "transform_names_heap fuel h r = Some (h', r') \<Longrightarrow>
      r' = r \<and> (\<forall>a. map_option obj_children (h' a) = map_option obj_children (h a))"
  and "transform_children fuel h rs = Some h'' \<Longrightarrow>
      (\<forall>a. map_option obj_children (h'' a) = map_option obj_children (h a))"
proof (induction fuel h r and fuel h rs arbitrary: h' r' and h''
    rule: transform_names_heap_transform_children.induct)
  case (1 h r)
  then show ?case by simp
next
  case (2 fuel h r)
  from "2.prems" obtain node where node: "h r = Some node" by (cases "h r") auto
  let ?h1 = "h(r \<mapsto> node\<lparr>obj_name := clean_name (obj_name node)\<rparr>)"
  from "2.prems" node obtain h2 where h2: "transform_children fuel ?h1 (obj_children node) = Some h2"
    and res: "h' = h2" "r' = r"
    by (auto split: option.splits)
  from "2.IH" [OF node h2] have "\<forall>a. map_option obj_children (h2 a) = map_option obj_children (?h1 a)" .
  moreover have "\<forall>a. map_option obj_children (?h1 a) = map_option obj_children (h a)"
    using node by simp
  ultimately show ?case using res by simp
next
  case (3 fuel h)
  then show ?case by simp
next
  case (4 fuel h child rest)
  from "4.prems" obtain h1 ret where h1: "transform_names_heap fuel h child = Some (h1, ret)"
    and rest: "transform_children fuel h1 rest = Some h''"
    by (auto split: option.splits)
  from "4.IH"(1) [OF h1] have "\<forall>a. map_option obj_children (h1 a) = map_option obj_children (h a)"
    by blast
  moreover from "4.IH"(2) [OF h1 refl rest]
  have "\<forall>a. map_option obj_children (h'' a) = map_option obj_children (h1 a)" .
  ultimately show ?case by simp
qed

lemma clean_on_update:
  "h r = Some node \<Longrightarrow> h(r \<mapsto> node\<lparr>obj_name := clean_name (obj_name node)\<rparr>) = clean_on {r} h"
  by (auto simp: clean_on_def fun_eq_iff)

lemma clean_on_twice:
  "S \<inter> T = {} \<Longrightarrow> clean_on T (clean_on S h) = clean_on (S \<union> T) h"
  by (auto simp: clean_on_def fun_eq_iff split: option.splits)

lemma clean_on_empty: "clean_on {} h = h"
  by (simp add: clean_on_def)

lemma children_clean_on:
  "(case clean_on S h r of None \<Rightarrow> False | Some node \<Rightarrow> obj_children node = rs)
     = (case h r of None \<Rightarrow> False | Some node \<Rightarrow> obj_children node = rs)"
  by (simp add: clean_on_def split: option.splits)

lemma laid_out_clean_on: "laid_out (clean_on S h) rt = laid_out h rt"
proof (induction rt)
  case (RNode r kids)
  then have "list_all (laid_out (clean_on S h)) kids = list_all (laid_out h) kids"
    by (simp add: list_all_iff)
  then show ?case by (simp add: children_clean_on)
qed

lemma laid_out_clean_on_fun: "laid_out (clean_on S h) = laid_out h"
  by (rule ext) (rule laid_out_clean_on)

lemma fold_max_start: "(a::nat) \<le> fold max xs a"
proof (induction xs arbitrary: a)
  case Nil
  then show ?case by simp
next
  case (Cons y ys)
  have "a \<le> max y a" by simp
  also have "\<dots> \<le> fold max ys (max y a)" by (rule Cons.IH)
  finally show ?case by simp
qed

lemma fold_max_ge: "x \<in> set xs \<Longrightarrow> x \<le> fold max xs (a::nat)"
proof (induction xs arbitrary: a)
  case Nil
  then show ?case by simp
next
  case (Cons y ys)
  show ?case
  proof (cases "x = y")
    case True
    have "y \<le> max y a" by simp
    also have "\<dots> \<le> fold max ys (max y a)" by (rule fold_max_start)
    finally show ?thesis using True by simp
  next
    case False
    with Cons.prems have "x \<in> set ys" by simp
    then have "x \<le> fold max ys (max y a)" by (rule Cons.IH)
    then show ?thesis by simp
  qed
qed

lemma pass_on_children:
  assumes IH: "\<And>k h. k \<in> set kids \<Longrightarrow> laid_out h k \<Longrightarrow>
      transform_names_heap fuel h (rref k) = Some (clean_on (set (refs k)) h, rref k)"
    and "list_all (laid_out h) kids" and "distinct (concat (map refs kids))"
  shows "transform_children fuel h (map rref kids) = Some (clean_on (set (concat (map refs kids))) h)"
  using assms
proof (induction kids arbitrary: h)
  case Nil
  then show ?case by (simp add: clean_on_empty)
next
  case (Cons k ks)
  let ?h1 = "clean_on (set (refs k)) h"
  from Cons.prems have first: "transform_names_heap fuel h (rref k) = Some (?h1, rref k)"
    by simp
  have "list_all (laid_out ?h1) ks"
    using Cons.prems(2) by (simp add: laid_out_clean_on_fun)
  moreover have "distinct (concat (map refs ks))" using Cons.prems(3) by simp
  ultimately have "transform_children fuel ?h1 (map rref ks)
      = Some (clean_on (set (concat (map refs ks))) ?h1)"
    using Cons.prems(1) by (intro Cons.IH) simp_all
  moreover have "set (refs k) \<inter> set (concat (map refs ks)) = {}"
    using Cons.prems(3) by auto
  ultimately show ?case
    using first by (simp add: clean_on_twice)
qed

lemma pass_on_tree:
  "laid_out h rt \<Longrightarrow> distinct (refs rt) \<Longrightarrow> rheight rt \<le> fuel \<Longrightarrow>
   transform_names_heap fuel h (rref rt) = Some (clean_on (set (refs rt)) h, rref rt)"
proof (induction rt arbitrary: h fuel)
  case (RNode r kids)
  from RNode.prems(3) obtain f where fuel: "fuel = Suc f" and f: "fold max (map rheight kids) 0 \<le> f"
    by (cases fuel) auto
  from RNode.prems(1) obtain node where node: "h r = Some node"
      "obj_children node = map rref kids" and kids: "list_all (laid_out h) kids"
    by (auto split: option.splits)
  let ?h1 = "clean_on {r} h"
  have low: "rheight k \<le> f" if "k \<in> set kids" for k
    using that f fold_max_ge [of "rheight k" "map rheight kids" 0] by auto
  have dist: "distinct (refs k)" if "k \<in> set kids" for k
    using that RNode.prems(2) by (auto simp: distinct_concat_iff)
  have "transform_children f ?h1 (map rref kids)
      = Some (clean_on (set (concat (map refs kids))) ?h1)"
  proof (rule pass_on_children)
    show "transform_names_heap f h' (rref k) = Some (clean_on (set (refs k)) h', rref k)"
      if "k \<in> set kids" "laid_out h' k" for k h'
      using that low dist by (intro RNode.IH) simp_all
    show "list_all (laid_out ?h1) kids" using kids by (simp add: laid_out_clean_on_fun)
    show "distinct (concat (map refs kids))" using RNode.prems(2) by simp
  qed
  moreover have "{r} \<inter> set (concat (map refs kids)) = {}"
    using RNode.prems(2) by auto
  ultimately show ?case
    using node fuel by (simp add: clean_on_update clean_on_twice)
qed

lemma clean_name_Nil: "clean_name [] = []"
  by (simp add: clean_name_def)

lemma tree_of_clean_on:
  "set (refs rt) \<subseteq> S \<Longrightarrow> tree_of (clean_on S h) rt = transform_names (tree_of h rt)"
proof (induction rt)
  case (RNode r kids)
  have "map (tree_of (clean_on S h)) kids = map (transform_names \<circ> tree_of h) kids"
  proof (rule map_cong [OF refl])
    fix k assume "k \<in> set kids"
    with RNode.prems have "set (refs k) \<subseteq> S" by auto
    with \<open>k \<in> set kids\<close> show "tree_of (clean_on S h) k = (transform_names \<circ> tree_of h) k"
      by (simp add: RNode.IH)
  qed
  moreover have "r \<in> S" using RNode.prems by simp
  ultimately show ?case
    by (simp add: clean_on_def clean_name_Nil split: option.splits)
qed

text \<open>
  C9. The name transformer leaves the structure of the tree as it is. On the tree as a
  value: the tree without its names is the same before and after, and the names, in
  preorder, are the cleaned names of before. On the objects in a store: whenever the
  pass returns, it returns the reference it was given and every object of the store has
  the list of children it had; on a tree-shaped region the pass does return, with the
  names of the objects of the region cleaned and nothing else changed, and the tree of
  names read off the store is then \<open>transform_names\<close> of the tree read off before.
\<close>

theorem transform_names_structure:
  "skeleton_of (transform_names t) = skeleton_of t
   \<and> names_of (transform_names t) = map clean_name (names_of t)
   \<and> (transform_names_heap fuel h r = Some (h', r') \<longrightarrow>
        r' = r \<and> (\<forall>a. map_option obj_children (h' a) = map_option obj_children (h a)))
   \<and> (laid_out h rt \<and> distinct (refs rt) \<longrightarrow>
        transform_names_heap (rheight rt) h (rref rt)
          = Some (clean_on (set (refs rt)) h, rref rt)
        \<and> tree_of (clean_on (set (refs rt)) h) rt = transform_names (tree_of h rt))"
proof (intro conjI impI)
  show "skeleton_of (transform_names t) = skeleton_of t"
    by (simp add: transform_names_tree)
  show "names_of (transform_names t) = map clean_name (names_of t)"
    by (simp add: transform_names_tree)
next
  assume "transform_names_heap fuel h r = Some (h', r')"
  then show "r' = r" and "\<forall>a. map_option obj_children (h' a) = map_option obj_children (h a)"
    using heap_frame(1) by blast+
next
  assume "laid_out h rt \<and> distinct (refs rt)"
  then show "transform_names_heap (rheight rt) h (rref rt)
      = Some (clean_on (set (refs rt)) h, rref rt)"
    by (intro pass_on_tree) simp_all
next
  show "tree_of (clean_on (set (refs rt)) h) rt = transform_names (tree_of h rt)"
    by (rule tree_of_clean_on) simp
qed

theorem transform_names_structure_witness:
  "laid_out [0 \<mapsto> \<lparr>obj_name = ''root1'', obj_children = [1, 2]\<rparr>,
             1 \<mapsto> \<lparr>obj_name = ''kid2'', obj_children = []\<rparr>,
             2 \<mapsto> \<lparr>obj_name = ''x'', obj_children = []\<rparr>]
       (RNode 0 [RNode 1 [], RNode 2 []])
   \<and> distinct (refs (RNode 0 [RNode 1 [], RNode 2 []]))
   \<and> map_option snd (transform_names_heap 2
        [0 \<mapsto> \<lparr>obj_name = ''root1'', obj_children = [1, 2]\<rparr>,
         1 \<mapsto> \<lparr>obj_name = ''kid2'', obj_children = []\<rparr>,
         2 \<mapsto> \<lparr>obj_name = ''x'', obj_children = []\<rparr>] 0) = Some 0
   \<and> tree_of (clean_on {0, 1, 2}
        [0 \<mapsto> \<lparr>obj_name = ''root1'', obj_children = [1, 2]\<rparr>,
         1 \<mapsto> \<lparr>obj_name = ''kid2'', obj_children = []\<rparr>,
         2 \<mapsto> \<lparr>obj_name = ''x'', obj_children = []\<rparr>])
       (RNode 0 [RNode 1 [], RNode 2 []])
     = Node ''Root'' [Node ''Kid'' [], Node ''X'' []]"
proof -
  let ?h = "[0 \<mapsto> \<lparr>obj_name = ''root1'', obj_children = [1, 2]\<rparr>,
             1 \<mapsto> \<lparr>obj_name = ''kid2'', obj_children = []\<rparr>,
             2 \<mapsto> \<lparr>obj_name = ''x'', obj_children = []\<rparr>] :: heap"
  let ?rt = "RNode 0 [RNode 1 [], RNode 2 []]"
  note inst = transform_names_structure [of "Node [] []" 0 ?h 0 ?h 0 ?rt]
  have laid: "laid_out ?h ?rt" by simp
  have dist: "distinct (refs ?rt)" by simp
  have refs: "set (refs ?rt) = {0, 1, 2}" by auto
  have height: "rheight ?rt = 2" by simp
  have names: "transform_names (tree_of ?h ?rt) = Node ''Root'' [Node ''Kid'' [], Node ''X'' []]"
  proof -
    have "tree_of ?h ?rt = Node ''root1'' [Node ''kid2'' [], Node ''x'' []]" by simp
    moreover have "transform_names (Node ''root1'' [Node ''kid2'' [], Node ''x'' []])
        = Node ''Root'' [Node ''Kid'' [], Node ''X'' []]"
      by code_simp
    ultimately show ?thesis by (simp only:)
  qed
  from inst laid dist
  have run: "transform_names_heap (rheight ?rt) ?h (rref ?rt)
      = Some (clean_on (set (refs ?rt)) ?h, rref ?rt)"
    and tree: "tree_of (clean_on (set (refs ?rt)) ?h) ?rt = transform_names (tree_of ?h ?rt)"
    by blast+
  from run have a: "map_option snd (transform_names_heap 2 ?h 0) = Some 0"
    by (simp only: height rnode.sel) simp
  from tree have b: "tree_of (clean_on {0, 1, 2} ?h) ?rt
      = Node ''Root'' [Node ''Kid'' [], Node ''X'' []]"
    by (simp only: refs names)
  show ?thesis by (intro conjI laid dist a b)
qed

section \<open>The names handed to the name cleanup\<close>












section \<open>Worked examples\<close>

text \<open>
  C4. With the map \<open>{A: [B], B: [A]}\<close>, \<open>make_node\<close> from \<open>A\<close> with an empty visited set gives
  \<open>A\<close> with the one child \<open>B\<close>, whose one child is \<open>A\<close> again, this time without children.
\<close>

theorem make_node_two_cycle:
  "make_node ''A'' [(''A'', [''B'']), (''B'', [''A''])] {} = Node ''A'' [Node ''B'' [Node ''A'' []]]"
  by (simp add: make_node.simps pcm_get_def)

text \<open>
  C10. For the empty adjacency map \<open>build_tree\<close> returns the empty forest: no root is
  selected, the fallback to all parents has no parent to offer, and a forest of length
  zero is returned as the list it is.
\<close>

theorem build_tree_empty:
  "build_tree [] = Forest [] \<and> root_candidates [] = [] \<and> roots [] = []"
  by (simp add: build_tree_def roots_def root_candidates_def)

text \<open>
  C1, as the specification states it, does not hold: on the rows
  \<open>[["root","child1","child2"], ["child1","grandchild1"]]\<close> the pipeline does not produce
  the tree with the names \<open>Child1\<close>, \<open>Grandchild1\<close> and \<open>Child2\<close>.
\<close>

theorem pipeline_example_counterexample:
  "pipeline [[''root'', ''child1'', ''child2''], [''child1'', ''grandchild1'']]
     \<noteq> Inr (Single (Node ''Root''
              [Node ''Child1'' [Node ''Grandchild1'' []], Node ''Child2'' []]))"
proof -
  have "pipeline [[''root'', ''child1'', ''child2''], [''child1'', ''grandchild1'']]
     = Inr (Single (Node ''Root'' [Node ''Child'' [Node ''Grandchild'' []], Node ''Child'' []]))"
    by code_simp
  then show ?thesis by simp
qed

text \<open>
  C1, amended. On these rows the pipeline produces the single tree
  \<open>{"name":"Root","children":[{"name":"Child","children":[{"name":"Grandchild","children":[]}]},
  {"name":"Child","children":[]}]}\<close>: the name transformation removes the digits that end
  \<open>child1\<close>, \<open>child2\<close> and \<open>grandchild1\<close>. Before the transformation the tree carries the
  tokens themselves. The result is the same when the shorter row is padded with an empty
  cell, as it is in a rectangular table.
\<close>

theorem pipeline_example:
  "pipeline [[''root'', ''child1'', ''child2''], [''child1'', ''grandchild1'']]
     = Inr (Single (Node ''Root'' [Node ''Child'' [Node ''Grandchild'' []], Node ''Child'' []]))
   \<and> build_parent_child_map [[''root'', ''child1'', ''child2''], [''child1'', ''grandchild1'']]
     = Inr [(''root'', [''child1'', ''child2'']), (''child1'', [''grandchild1''])]
   \<and> build_tree [(''root'', [''child1'', ''child2'']), (''child1'', [''grandchild1''])]
     = Single (Node ''root'' [Node ''child1'' [Node ''grandchild1'' []], Node ''child2'' []])
   \<and> pipeline [[''root'', ''child1'', ''child2''], [''child1'', ''grandchild1'', []]]
     = Inr (Single (Node ''Root'' [Node ''Child'' [Node ''Grandchild'' []], Node ''Child'' []]))"
proof -
  have whole: "pipeline [[''root'', ''child1'', ''child2''], [''child1'', ''grandchild1'']]
     = Inr (Single (Node ''Root'' [Node ''Child'' [Node ''Grandchild'' []], Node ''Child'' []]))"
    by code_simp
  have table: "build_parent_child_map
       [[''root'', ''child1'', ''child2''], [''child1'', ''grandchild1'']]
     = Inr [(''root'', [''child1'', ''child2'']), (''child1'', [''grandchild1''])]"
    by code_simp
  have tree: "build_tree [(''root'', [''child1'', ''child2'']), (''child1'', [''grandchild1''])]
     = Single (Node ''root'' [Node ''child1'' [Node ''grandchild1'' []], Node ''child2'' []])"
    by code_simp
  have padded: "pipeline [[''root'', ''child1'', ''child2''], [''child1'', ''grandchild1'', []]]
     = Inr (Single (Node ''Root'' [Node ''Child'' [Node ''Grandchild'' []], Node ''Child'' []]))"
    by code_simp
  show ?thesis by (intro conjI whole table tree padded)
qed

end
